theory Spec2Isabelle
  imports Complex_Main
begin

section \<open>Python numbers and exceptions\<close>

text \<open>
  The engine computes on Python floats, and a power of a negative float with a
  fractional exponent is a Python complex number, which then flows through the graph
  like any other value. A number is therefore a float or a complex. Floats are
  idealised as real numbers: rounding, overflow, infinities and NaN are outside this
  development. What Python raises is kept as a value of type \<open>error\<close>.
\<close>

datatype number = Float real | Cplx complex

datatype error =
    ZeroDivisionError
  | ValueError
  | TypeError
  | ConversionError
  | OtherException

text \<open>
  \<open>ZeroDivisionError\<close>: a division by zero, or zero raised to a negative power.
  \<open>ValueError\<close>: the math domain error of \<open>math.log\<close>.
  \<open>TypeError\<close>: a forward or backward rule called with the wrong number of inputs, a
  function of \<open>math\<close> applied to a complex number, or a complex number compared with 0.
  \<open>ConversionError\<close>: the TypeError or ValueError that \<open>float(other)\<close> raises.
  \<open>OtherException\<close>: any other exception, which only a custom hook can raise.
\<close>

definition and_then :: "error + 'a \<Rightarrow> ('a \<Rightarrow> error + 'b) \<Rightarrow> error + 'b" where
  "and_then r f = (case r of Inl e \<Rightarrow> Inl e | Inr x \<Rightarrow> f x)"

text \<open>Mixed arithmetic converts the float operand to a complex number.\<close>

fun as_complex :: "number \<Rightarrow> complex" where
  "as_complex (Float r) = of_real r"
| "as_complex (Cplx z) = z"

fun py_add :: "number \<Rightarrow> number \<Rightarrow> number" where
  "py_add (Float a) (Float b) = Float (a + b)"
| "py_add x y = Cplx (as_complex x + as_complex y)"

fun py_sub :: "number \<Rightarrow> number \<Rightarrow> number" where
  "py_sub (Float a) (Float b) = Float (a - b)"
| "py_sub x y = Cplx (as_complex x - as_complex y)"

fun py_mul :: "number \<Rightarrow> number \<Rightarrow> number" where
  "py_mul (Float a) (Float b) = Float (a * b)"
| "py_mul x y = Cplx (as_complex x * as_complex y)"

fun py_neg :: "number \<Rightarrow> number" where
  "py_neg (Float a) = Float (- a)"
| "py_neg (Cplx z) = Cplx (- z)"

fun py_truediv :: "number \<Rightarrow> number \<Rightarrow> error + number" where
  "py_truediv (Float a) (Float b) =
     (if b = 0 then Inl ZeroDivisionError else Inr (Float (a / b)))"
| "py_truediv x y =
     (if as_complex y = 0 then Inl ZeroDivisionError
      else Inr (Cplx (as_complex x / as_complex y)))"

text \<open>
  Complex exponentiation, as CPython computes it: in polar form, from the modulus and
  the argument \<open>atan2(imag, real)\<close> of the base.
\<close>

definition complex_pow :: "complex \<Rightarrow> complex \<Rightarrow> error + complex" where
  "complex_pow a b =
     (if b = 0 then Inr 1
      else if a = 0 then
        (if Im b \<noteq> 0 \<or> Re b < 0 then Inl ZeroDivisionError else Inr 0)
      else
        (let vabs = cmod a;
             angle = Arg a;
             len = (vabs powr Re b) / exp (angle * Im b);
             phase = angle * Re b + Im b * ln vabs
         in Inr (Complex (len * cos phase) (len * sin phase))))"

text \<open>
  Float exponentiation \<open>a ** b\<close>, in the case order of CPython's float power: a
  negative base with a fractional exponent is handed to the complex power.
\<close>

definition float_pow :: "real \<Rightarrow> real \<Rightarrow> error + number" where
  "float_pow a b =
     (if b = 0 then Inr (Float 1)
      else if a = 0 then (if b < 0 then Inl ZeroDivisionError else Inr (Float 0))
      else if a < 0 then
        (if b \<noteq> of_int \<lfloor>b\<rfloor>
         then and_then (complex_pow (of_real a) (of_real b)) (\<lambda>z. Inr (Cplx z))
         else Inr (Float (a powi \<lfloor>b\<rfloor>)))
      else Inr (Float (a powr b)))"

fun py_pow :: "number \<Rightarrow> number \<Rightarrow> error + number" where
  "py_pow (Float a) (Float b) = float_pow a b"
| "py_pow x y = and_then (complex_pow (as_complex x) (as_complex y)) (\<lambda>z. Inr (Cplx z))"

text \<open>The comparison \<open>a > 0\<close>: complex numbers are not ordered.\<close>

fun py_gt_zero :: "number \<Rightarrow> error + bool" where
  "py_gt_zero (Float a) = Inr (a > 0)"
| "py_gt_zero (Cplx z) = Inl TypeError"

text \<open>
  A function of the module \<open>math\<close> that is defined on every float: it rejects a
  complex argument.
\<close>

fun math_fn :: "(real \<Rightarrow> real) \<Rightarrow> number \<Rightarrow> error + number" where
  "math_fn f (Float x) = Inr (Float (f x))"
| "math_fn f (Cplx z) = Inl TypeError"

fun math_log :: "number \<Rightarrow> error + number" where
  "math_log (Float x) = (if x \<le> 0 then Inl ValueError else Inr (Float (ln x)))"
| "math_log (Cplx z) = Inl TypeError"

section \<open>Operations\<close>

datatype operation =
  Add | Mul | Neg | Sub | Div | Pow_op | Exp | Log | Sin | Cos | Tan | Cot
  | Sinh | Cosh | Tanh | Coth

text \<open>
  \<open>op_forward k inputs\<close> is \<open>k.forward(*inputs)\<close>: a call with the wrong number
  of inputs is a TypeError.
\<close>

fun op_forward :: "operation \<Rightarrow> number list \<Rightarrow> error + number" where
  "op_forward Add [a, b] = Inr (py_add a b)"
| "op_forward Mul [a, b] = Inr (py_mul a b)"
| "op_forward Neg [a] = Inr (py_neg a)"
| "op_forward Sub [a, b] = Inr (py_sub a b)"
| "op_forward Div [a, b] = py_truediv a b"
| "op_forward Pow_op [a, b] = py_pow a b"
| "op_forward Exp [x] = math_fn exp x"
| "op_forward Log [x] = math_log x"
| "op_forward Sin [x] = math_fn sin x"
| "op_forward Cos [x] = math_fn cos x"
| "op_forward Tan [x] = math_fn tan x"
| "op_forward Cot [x] = and_then (math_fn tan x) (\<lambda>t. py_truediv (Float 1) t)"
| "op_forward Sinh [x] = math_fn sinh x"
| "op_forward Cosh [x] = math_fn cosh x"
| "op_forward Tanh [x] = math_fn tanh x"
| "op_forward Coth [x] = and_then (math_fn tanh x) (\<lambda>t. py_truediv (Float 1) t)"
| "op_forward _ _ = Inl TypeError"

text \<open>
  \<open>Tan.forward\<close> has no failing branch on a float: \<open>math.tan\<close> raises on no finite
  float, and the source puts no check before it. \<open>Cot.forward\<close> and \<open>Coth.forward\<close>
  fail on a float only through the division \<open>1.0 / ...\<close>.
\<close>

text \<open>
  \<open>op_backward k g inputs\<close> is \<open>k.backward(g, *inputs)\<close>: one contribution per
  input, in input order. Subexpressions are evaluated left to right, so the first
  failure is the one raised.
\<close>

fun op_backward :: "operation \<Rightarrow> number \<Rightarrow> number list \<Rightarrow> error + number list" where
  "op_backward Add g [a, b] = Inr [g, g]"
| "op_backward Mul g [a, b] = Inr [py_mul g b, py_mul g a]"
| "op_backward Neg g [a] = Inr [py_neg g]"
| "op_backward Sub g [a, b] = Inr [g, py_neg g]"
| "op_backward Div g [a, b] =
     and_then (py_truediv g b) (\<lambda>da.
     and_then (py_truediv (py_mul (py_neg g) a) (py_mul b b)) (\<lambda>db. Inr [da, db]))"
| "op_backward Pow_op g [a, b] =
     and_then (py_pow a (py_sub b (Float 1))) (\<lambda>p.
     and_then (py_gt_zero a) (\<lambda>positive.
     and_then (if positive
               then and_then (py_pow a b) (\<lambda>q.
                    and_then (math_log a) (\<lambda>l. Inr (py_mul (py_mul g q) l)))
               else Inr (Float 0)) (\<lambda>db. Inr [py_mul (py_mul g b) p, db])))"
| "op_backward Exp g [x] = and_then (math_fn exp x) (\<lambda>e. Inr [py_mul g e])"
| "op_backward Log g [x] = and_then (py_truediv g x) (\<lambda>d. Inr [d])"
| "op_backward Sin g [x] = and_then (math_fn cos x) (\<lambda>c. Inr [py_mul g c])"
| "op_backward Cos g [x] = and_then (math_fn sin x) (\<lambda>s. Inr [py_mul (py_neg g) s])"
| "op_backward Tan g [x] =
     and_then (math_fn cos x) (\<lambda>c.
     and_then (py_pow c (Float 2)) (\<lambda>c2.
     and_then (py_truediv g c2) (\<lambda>d. Inr [d])))"
| "op_backward Cot g [x] =
     and_then (math_fn sin x) (\<lambda>c.
     and_then (py_pow c (Float 2)) (\<lambda>c2.
     and_then (py_truediv (py_neg g) c2) (\<lambda>d. Inr [d])))"
| "op_backward Sinh g [x] = and_then (math_fn cosh x) (\<lambda>c. Inr [py_mul g c])"
| "op_backward Cosh g [x] = and_then (math_fn sinh x) (\<lambda>c. Inr [py_mul g c])"
| "op_backward Tanh g [x] =
     and_then (math_fn tanh x) (\<lambda>t.
     and_then (py_pow t (Float 2)) (\<lambda>t2. Inr [py_mul g (py_sub (Float 1) t2)]))"
| "op_backward Coth g [x] =
     and_then (math_fn sinh x) (\<lambda>c.
     and_then (py_pow c (Float 2)) (\<lambda>c2.
     and_then (py_truediv (py_neg g) c2) (\<lambda>d. Inr [d])))"
| "op_backward _ _ _ = Inl TypeError"

fun arity :: "operation \<Rightarrow> nat" where
  "arity Add = 2" | "arity Mul = 2" | "arity Sub = 2" | "arity Div = 2"
| "arity Pow_op = 2" | "arity _ = 1"

section \<open>Nodes and the object store\<close>

text \<open>
  A \<open>Value\<close> object is a record of its attributes. Python compares and deduplicates
  nodes by identity (\<open>id(v)\<close>), so nodes live in a store, the list of all objects in
  creation order, and a reference to a node is its index there.

  The attribute \<open>_backward\<close> holds a callable. Callables are values of an arbitrary
  type \<open>'c\<close>; what calling one does to the store, and whether it raises, is given by a
  function \<open>call\<close> that the backward pass takes as a parameter. The field
  \<open>backward_hook\<close> is \<open>None\<close> for the default \<open>lambda: None\<close>, which does nothing.
\<close>

type_synonym addr = nat

record 'c node =
  "value" :: number
  grad :: number
  op :: "operation option"
  prev :: "addr list"
  backward_hook :: "'c option"
  label :: "string option"

type_synonym 'c store = "'c node list"

type_synonym 'c call = "'c \<Rightarrow> 'c store \<Rightarrow> 'c store \<times> error option"

definition Value_init ::
  "number \<Rightarrow> addr list \<Rightarrow> operation option \<Rightarrow> 'c option \<Rightarrow> string option \<Rightarrow> 'c node" where
  "Value_init v ps k b l =
     \<lparr>value = v, grad = Float 0, op = k, prev = ps, backward_hook = b, label = l\<rparr>"

definition value_of :: "'c store \<Rightarrow> addr \<Rightarrow> number" where
  "value_of s a = value (s ! a)"

text \<open>The operands of a node; a reference outside the store, which Python cannot hold, has none.\<close>

definition prev_of :: "'c store \<Rightarrow> addr \<Rightarrow> addr list" where
  "prev_of s a = (if a < length s then prev (s ! a) else [])"

text \<open>
  The right operand of an operator: a node, an object that \<open>float\<close> converts (to the
  given number), or an object on which \<open>float\<close> raises.
\<close>

datatype operand = Node addr | Number real | NonNumeric

text \<open>\<open>if not isinstance(other, Value): other = Value(float(other))\<close>\<close>

definition wrap :: "'c store \<Rightarrow> operand \<Rightarrow> error + addr \<times> 'c store" where
  "wrap s other =
     (case other of
        Node a \<Rightarrow> Inr (a, s)
      | Number x \<Rightarrow> Inr (length s, s @ [Value_init (Float x) [] None None None])
      | NonNumeric \<Rightarrow> Inl ConversionError)"

text \<open>
  The body shared by the binary operator methods. The reflected ones
  (\<open>__rsub__\<close>, \<open>__rtruediv__\<close>, \<open>__rpow__\<close>) put \<open>other\<close> first. The result is the
  exception or the reference to the new node, and the store the call leaves behind.
\<close>

definition binary_op ::
  "operation \<Rightarrow> bool \<Rightarrow> 'c store \<Rightarrow> addr \<Rightarrow> operand \<Rightarrow> (error + addr) \<times> 'c store" where
  "binary_op k reflected s self other =
     (case wrap s other of
        Inl e \<Rightarrow> (Inl e, s)
      | Inr (other', s1) \<Rightarrow>
          (let ps = (if reflected then [other', self] else [self, other']) in
           case op_forward k (map (value_of s1) ps) of
             Inl e \<Rightarrow> (Inl e, s1)
           | Inr v \<Rightarrow> (Inr (length s1), s1 @ [Value_init v ps (Some k) None None])))"

definition unary_op :: "operation \<Rightarrow> 'c store \<Rightarrow> addr \<Rightarrow> (error + addr) \<times> 'c store" where
  "unary_op k s self =
     (case op_forward k [value_of s self] of
        Inl e \<Rightarrow> (Inl e, s)
      | Inr v \<Rightarrow> (Inr (length s), s @ [Value_init v [self] (Some k) None None]))"

definition Value_add :: "'c store \<Rightarrow> addr \<Rightarrow> operand \<Rightarrow> (error + addr) \<times> 'c store" where
  "Value_add s self other = binary_op Add False s self other"

definition Value_radd :: "'c store \<Rightarrow> addr \<Rightarrow> operand \<Rightarrow> (error + addr) \<times> 'c store" where
  "Value_radd s self other = Value_add s self other"

definition Value_mul :: "'c store \<Rightarrow> addr \<Rightarrow> operand \<Rightarrow> (error + addr) \<times> 'c store" where
  "Value_mul s self other = binary_op Mul False s self other"

definition Value_rmul :: "'c store \<Rightarrow> addr \<Rightarrow> operand \<Rightarrow> (error + addr) \<times> 'c store" where
  "Value_rmul s self other = Value_mul s self other"

definition Value_neg :: "'c store \<Rightarrow> addr \<Rightarrow> (error + addr) \<times> 'c store" where
  "Value_neg s self = unary_op Neg s self"

definition Value_sub :: "'c store \<Rightarrow> addr \<Rightarrow> operand \<Rightarrow> (error + addr) \<times> 'c store" where
  "Value_sub s self other = binary_op Sub False s self other"

definition Value_rsub :: "'c store \<Rightarrow> addr \<Rightarrow> operand \<Rightarrow> (error + addr) \<times> 'c store" where
  "Value_rsub s self other = binary_op Sub True s self other"

definition Value_truediv :: "'c store \<Rightarrow> addr \<Rightarrow> operand \<Rightarrow> (error + addr) \<times> 'c store" where
  "Value_truediv s self other = binary_op Div False s self other"

definition Value_rtruediv :: "'c store \<Rightarrow> addr \<Rightarrow> operand \<Rightarrow> (error + addr) \<times> 'c store" where
  "Value_rtruediv s self other = binary_op Div True s self other"

definition Value_pow :: "'c store \<Rightarrow> addr \<Rightarrow> operand \<Rightarrow> (error + addr) \<times> 'c store" where
  "Value_pow s self other = binary_op Pow_op False s self other"

definition Value_rpow :: "'c store \<Rightarrow> addr \<Rightarrow> operand \<Rightarrow> (error + addr) \<times> 'c store" where
  "Value_rpow s self other = binary_op Pow_op True s self other"

definition Value_exp :: "'c store \<Rightarrow> addr \<Rightarrow> (error + addr) \<times> 'c store" where
  "Value_exp s self = unary_op Exp s self"

definition Value_log :: "'c store \<Rightarrow> addr \<Rightarrow> (error + addr) \<times> 'c store" where
  "Value_log s self = unary_op Log s self"

definition Value_sin :: "'c store \<Rightarrow> addr \<Rightarrow> (error + addr) \<times> 'c store" where
  "Value_sin s self = unary_op Sin s self"

definition Value_cos :: "'c store \<Rightarrow> addr \<Rightarrow> (error + addr) \<times> 'c store" where
  "Value_cos s self = unary_op Cos s self"

definition Value_tan :: "'c store \<Rightarrow> addr \<Rightarrow> (error + addr) \<times> 'c store" where
  "Value_tan s self = unary_op Tan s self"

definition Value_cot :: "'c store \<Rightarrow> addr \<Rightarrow> (error + addr) \<times> 'c store" where
  "Value_cot s self = unary_op Cot s self"

definition Value_sinh :: "'c store \<Rightarrow> addr \<Rightarrow> (error + addr) \<times> 'c store" where
  "Value_sinh s self = unary_op Sinh s self"

definition Value_cosh :: "'c store \<Rightarrow> addr \<Rightarrow> (error + addr) \<times> 'c store" where
  "Value_cosh s self = unary_op Cosh s self"

definition Value_tanh :: "'c store \<Rightarrow> addr \<Rightarrow> (error + addr) \<times> 'c store" where
  "Value_tanh s self = unary_op Tanh s self"

definition Value_coth :: "'c store \<Rightarrow> addr \<Rightarrow> (error + addr) \<times> 'c store" where
  "Value_coth s self = unary_op Coth s self"

section \<open>The backward pass\<close>

text \<open>
  \<open>build_topo\<close> is the nested function of \<open>Value.backward\<close>; the closure variables
  \<open>visited\<close> and \<open>topo\<close> it mutates are passed through. \<open>visit_parents\<close> is its
  loop \<open>for parent in v.prev: build_topo(parent)\<close>.
\<close>

function build_topo :: "'c store \<Rightarrow> addr \<Rightarrow> addr set \<times> addr list \<Rightarrow> addr set \<times> addr list"
  and visit_parents :: "'c store \<Rightarrow> addr list \<Rightarrow> addr set \<times> addr list \<Rightarrow> addr set \<times> addr list"
where
  "build_topo s v (visited, topo) =
     (if v \<notin> visited
      then (case visit_parents s (prev_of s v) (insert v visited, topo) of
              (visited', topo') \<Rightarrow> (visited', topo' @ [v]))
      else (visited, topo))"
| "visit_parents s [] st = st"
| "visit_parents s (parent # ps) st = visit_parents s ps (build_topo s parent st)"
  by pat_completeness auto

text \<open>
  The traversal terminates on every store, cyclic or not: each node enters \<open>visited\<close>
  before its operands are followed, so the number of unvisited nodes falls.
\<close>

lemma visited_grows:
  "build_topo_visit_parents_dom (Inl (s, v, st)) \<Longrightarrow> fst st \<subseteq> fst (build_topo s v st)"
  "build_topo_visit_parents_dom (Inr (s, ps, st)) \<Longrightarrow> fst st \<subseteq> fst (visit_parents s ps st)"
proof (induction s v st and s ps st rule: build_topo_visit_parents.pinduct)
  case (1 s v visited topo)
  then show ?case
    by (auto simp: build_topo.psimps split: prod.splits)
next
  case (2 s st)
  then show ?case by (simp add: visit_parents.psimps)
next
  case (3 s parent ps st)
  then show ?case by (auto simp: visit_parents.psimps)
qed

definition unvisited :: "'c store \<Rightarrow> addr set \<times> addr list \<Rightarrow> nat" where
  "unvisited s st = card ({..<length s} - fst st)"

lemma unvisited_mono: "fst st \<subseteq> fst st' \<Longrightarrow> unvisited s st' \<le> unvisited s st"
  unfolding unvisited_def by (intro card_mono) auto

lemma unvisited_insert:
  "v < length s \<Longrightarrow> v \<notin> vis \<Longrightarrow> unvisited s (insert v vis, t) < unvisited s (vis, t')"
  unfolding unvisited_def by (intro psubset_card_mono) auto

lemma unvisited_outside:
  "\<not> v < length s \<Longrightarrow> unvisited s (insert v vis, t) = unvisited s (vis, t')"
  unfolding unvisited_def by (rule arg_cong[where f = card]) auto

termination build_topo
proof (relation "inv_image (less_than <*lex*> less_than)
    (\<lambda>x. case x of
        Inl (s, v, st) \<Rightarrow> (unvisited s st, if v < length s then 0 else 1)
      | Inr (s, ps, st) \<Rightarrow> (unvisited s st, 2 * length ps))", goal_cases)
  case 1
  show ?case by auto
next
  case (2 s v visited topo)
  then show ?case
    by (cases "v < length s") (simp_all add: unvisited_insert unvisited_outside prev_of_def)
next
  case (3 s parent ps st)
  then show ?case by auto
next
  case (4 s parent ps st)
  then show ?case
    using unvisited_mono[OF visited_grows(1)[OF 4], of s] by (auto simp: le_less)
qed

declare build_topo.simps [simp del]

definition topo_order :: "'c store \<Rightarrow> addr \<Rightarrow> addr list" where
  "topo_order s r = snd (build_topo s r ({}, []))"

definition set_grad :: "'c store \<Rightarrow> addr \<Rightarrow> number \<Rightarrow> 'c store" where
  "set_grad s a g = s[a := (s ! a)\<lparr>grad := g\<rparr>]"

definition add_grad :: "'c store \<Rightarrow> addr \<Rightarrow> number \<Rightarrow> 'c store" where
  "add_grad s a g = s[a := (s ! a)\<lparr>grad := py_add (grad (s ! a)) g\<rparr>]"

text \<open>\<open>for node in topo: node.grad = 0.0\<close>\<close>

fun reset_grads :: "'c store \<Rightarrow> addr list \<Rightarrow> 'c store" where
  "reset_grads s [] = s"
| "reset_grads s (n # ns) = reset_grads (set_grad s n (Float 0)) ns"

text \<open>\<open>for parent, grad in zip(v.prev, grads): parent.grad += grad\<close>\<close>

fun accumulate :: "'c store \<Rightarrow> (addr \<times> number) list \<Rightarrow> 'c store" where
  "accumulate s [] = s"
| "accumulate s ((parent, g) # rest) = accumulate (add_grad s parent g) rest"

text \<open>
  The \<open>if v.op is not None and v.prev:\<close> block of the reverse loop. The operation's
  backward rule runs before any gradient is written, so an exception it raises leaves
  the store as it was.
\<close>

definition propagate :: "'c store \<Rightarrow> addr \<Rightarrow> error + 'c store" where
  "propagate s v =
     (case op (s ! v) of
        None \<Rightarrow> Inr s
      | Some k \<Rightarrow>
          if prev (s ! v) = [] then Inr s
          else (case op_backward k (grad (s ! v)) (map (value_of s) (prev (s ! v))) of
                  Inl e \<Rightarrow> Inl e
                | Inr grads \<Rightarrow> Inr (accumulate s (zip (prev (s ! v)) grads))))"

text \<open>
  \<open>v._backward()\<close>: the default does nothing; a custom callable does to the store
  whatever \<open>call\<close> says, and may raise.
\<close>

definition run_hook :: "'c call \<Rightarrow> 'c store \<Rightarrow> addr \<Rightarrow> 'c store \<times> error option" where
  "run_hook call s v =
     (case backward_hook (s ! v) of
        None \<Rightarrow> (s, None)
      | Some h \<Rightarrow> call h s)"

text \<open>One iteration of the reverse loop: the block above, then the hook.\<close>

definition reverse_step :: "'c call \<Rightarrow> 'c store \<Rightarrow> addr \<Rightarrow> 'c store \<times> error option" where
  "reverse_step call s v =
     (case propagate s v of
        Inl e \<Rightarrow> (s, Some e)
      | Inr s' \<Rightarrow> run_hook call s' v)"

text \<open>
  \<open>for v in reversed(topo)\<close>: the loop stops at the first exception, which leaves
  what was written so far in the store.
\<close>

fun reverse_pass :: "'c call \<Rightarrow> 'c store \<Rightarrow> addr list \<Rightarrow> 'c store \<times> error option" where
  "reverse_pass call s [] = (s, None)"
| "reverse_pass call s (v # vs) =
     (case reverse_step call s v of
        (s', Some e) \<Rightarrow> (s', Some e)
      | (s', None) \<Rightarrow> reverse_pass call s' vs)"

definition Value_backward :: "'c call \<Rightarrow> 'c store \<Rightarrow> addr \<Rightarrow> 'c store \<times> error option" where
  "Value_backward call s self =
     (let topo = topo_order s self;
          s1 = reset_grads s topo;
          s2 = set_grad s1 self (Float 1)
      in reverse_pass call s2 (rev topo))"

section \<open>Graphs\<close>

text \<open>
  A node's operands exist before the node is built, so in a store in creation order
  every operand reference points to an earlier object. This is the acyclicity of the
  computation graph.
\<close>

definition wf_store :: "'c store \<Rightarrow> bool" where
  "wf_store s = (\<forall>v < length s. \<forall>p \<in> set (prev (s ! v)). p < v)"

text \<open>\<open>reach s r\<close>: the nodes reachable from \<open>r\<close> along operand edges, \<open>r\<close> included.\<close>

inductive_set reach :: "'c store \<Rightarrow> addr \<Rightarrow> addr set" for s :: "'c store" and r :: addr where
  root: "r \<in> reach s r"
| operand: "v \<in> reach s r \<Longrightarrow> p \<in> set (prev_of s v) \<Longrightarrow> p \<in> reach s r"

text \<open>
  The invariant of the traversal: \<open>topo\<close> has no duplicates, holds only visited nodes,
  and every node in it comes after all of its operands.
\<close>

definition topo_inv :: "'c store \<Rightarrow> addr set \<times> addr list \<Rightarrow> bool" where
  "topo_inv s st =
     (distinct (snd st) \<and> set (snd st) \<subseteq> fst st
      \<and> (\<forall>i < length (snd st). set (prev_of s (snd st ! i)) \<subseteq> set (take i (snd st))))"

text \<open>
  \<open>default_hooks s r\<close>: every node reachable from \<open>r\<close> holds the default \<open>_backward\<close>,
  as every node does that the operator methods build and every leaf built without
  the argument \<open>backward\<close>.
\<close>

definition default_hooks :: "'c store \<Rightarrow> addr \<Rightarrow> bool" where
  "default_hooks s r = (\<forall>a \<in> reach s r. backward_hook (s ! a) = None)"

text \<open>
  \<open>skeleton s\<close>: every attribute of every node except \<open>grad\<close>.
  \<open>untouched A s s'\<close>: outside the set \<open>A\<close> of references the stores hold the same nodes.
\<close>

definition skeleton ::
  "'c store \<Rightarrow> (number \<times> operation option \<times> addr list \<times> 'c option \<times> string option) list" where
  "skeleton s = map (\<lambda>n. (value n, op n, prev n, backward_hook n, label n)) s"

definition untouched :: "addr set \<Rightarrow> 'c store \<Rightarrow> 'c store \<Rightarrow> bool" where
  "untouched A s s' = (length s' = length s \<and> (\<forall>a < length s. a \<notin> A \<longrightarrow> s' ! a = s ! a))"

section \<open>Example stores and callables\<close>

text \<open>
  Three custom callables, each a closure over the leaf \<open>x\<close> at reference 0:
  \<open>lambda: setattr(x, 'grad', 0.0)\<close>, \<open>lambda: setattr(x, 'value', 5.0)\<close> and
  \<open>lambda: setattr(x, 'value', x.value + 1.0)\<close>. \<open>run_example\<close> calls them.
\<close>

datatype example_hook = Zero_grad | Set_value | Bump_value

fun run_example :: "example_hook call" where
  "run_example Zero_grad s = (s[0 := (s ! 0)\<lparr>grad := Float 0\<rparr>], None)"
| "run_example Set_value s = (s[0 := (s ! 0)\<lparr>value := Float 5\<rparr>], None)"
| "run_example Bump_value s =
     (s[0 := (s ! 0)\<lparr>value := py_add (value (s ! 0)) (Float 1)\<rparr>], None)"

text \<open>A store where one leaf is shared: \<open>x\<close>, \<open>x * x\<close> and \<open>x * x + x\<close> for \<open>x = 3\<close>.\<close>

definition diamond :: "example_hook store" where
  "diamond =
     [Value_init (Float 3) [] None None None,
      Value_init (Float 9) [0, 0] (Some Mul) None None,
      Value_init (Float 12) [1, 0] (Some Add) None None]"

text \<open>A store of two leaves with the values 2 and 3, used to run the methods on.\<close>

definition two_leaves :: "example_hook store" where
  "two_leaves = [Value_init (Float 2) [] None None None, Value_init (Float 3) [] None None None]"




text \<open>A leaf with a negative value, and a dividend 2 with a divisor 0.\<close>

definition negative_leaf :: "example_hook store" where
  "negative_leaf = [Value_init (Float (- 2)) [] None None None]"

definition zero_divisor :: "example_hook store" where
  "zero_divisor = [Value_init (Float 2) [] None None None, Value_init (Float 0) [] None None None]"


text \<open>The leaf \<open>x = Value(3.0, backward=h)\<close> alone, and with \<open>y = x * x\<close> built on it.\<close>

definition hooked_leaf :: "example_hook \<Rightarrow> example_hook store" where
  "hooked_leaf h = [Value_init (Float 3) [] None (Some h) None]"

definition hooked_square :: "example_hook \<Rightarrow> example_hook store" where
  "hooked_square h =
     [Value_init (Float 3) [] None (Some h) None,
      Value_init (Float 9) [0, 0] (Some Mul) None None]"

section \<open>Tables of the constructor methods\<close>

text \<open>
  Every method of \<open>Value\<close> that builds a node, with the operation it records and,
  for a binary method, whether it lists \<open>other\<close> before \<open>self\<close>.
\<close>

definition binary_methods ::
  "(operation \<times> bool \<times> ('c store \<Rightarrow> addr \<Rightarrow> operand \<Rightarrow> (error + addr) \<times> 'c store)) list" where
  "binary_methods =
     [(Add, False, Value_add), (Add, False, Value_radd),
      (Mul, False, Value_mul), (Mul, False, Value_rmul),
      (Sub, False, Value_sub), (Sub, True, Value_rsub),
      (Div, False, Value_truediv), (Div, True, Value_rtruediv),
      (Pow_op, False, Value_pow), (Pow_op, True, Value_rpow)]"

definition unary_methods ::
  "(operation \<times> ('c store \<Rightarrow> addr \<Rightarrow> (error + addr) \<times> 'c store)) list" where
  "unary_methods =
     [(Neg, Value_neg), (Exp, Value_exp), (Log, Value_log), (Sin, Value_sin),
      (Cos, Value_cos), (Tan, Value_tan), (Cot, Value_cot), (Sinh, Value_sinh),
      (Cosh, Value_cosh), (Tanh, Value_tanh), (Coth, Value_coth)]"


section \<open>Construction\<close>

lemmas method_defs =
  Value_add_def Value_radd_def Value_mul_def Value_rmul_def Value_neg_def Value_sub_def
  Value_rsub_def Value_truediv_def Value_rtruediv_def Value_pow_def Value_rpow_def
  Value_exp_def Value_log_def Value_sin_def Value_cos_def Value_tan_def Value_cot_def
  Value_sinh_def Value_cosh_def Value_tanh_def Value_coth_def

lemma binary_methods_are:
  "(k, r, m) \<in> set binary_methods \<Longrightarrow> m = binary_op k r \<and> arity k = 2"
  by (auto simp: binary_methods_def method_defs fun_eq_iff)

lemma unary_methods_are:
  "(k, m) \<in> set unary_methods \<Longrightarrow> m = unary_op k \<and> arity k = 1"
  by (auto simp: unary_methods_def method_defs fun_eq_iff)

lemma wrap_cases:
  "wrap s other = Inr (a, s1) \<Longrightarrow>
     (other = Node a \<and> s1 = s) \<or> (\<exists>x. other = Number x \<and> a = length s \<and> s1 = s @ [Value_init (Float x) [] None None None])"
  by (auto simp: wrap_def split: operand.splits)

lemma binary_op_node:
  assumes "binary_op k r s self other = (Inr y, s')" and "self < length s"
    and "\<And>a. other = Node a \<Longrightarrow> a < length s"
  shows "\<exists>other' s1 v. wrap s other = Inr (other', s1) \<and> other' < length s1 \<and> self < length s1
     \<and> length s \<le> length s1 \<and> take (length s) s1 = s \<and> y = length s1
     \<and> s' = s1 @ [Value_init v (if r then [other', self] else [self, other']) (Some k) None None]
     \<and> op_forward k (map (value_of s') (if r then [other', self] else [self, other'])) = Inr v"
proof -
  from assms(1) obtain other' s1 where w: "wrap s other = Inr (other', s1)"
    by (auto simp: binary_op_def split: sum.splits)
  define ps where "ps = (if r then [other', self] else [self, other'])"
  from assms(1) w obtain v where v: "op_forward k (map (value_of s1) ps) = Inr v"
    and y: "y = length s1" and s': "s' = s1 @ [Value_init v ps (Some k) None None]"
    by (auto simp: binary_op_def ps_def Let_def split: sum.splits)
  from wrap_cases[OF w] assms(2,3)
  have lt: "other' < length s1" "self < length s1" "take (length s) s1 = s" "length s \<le> length s1"
    by auto
  have "map (value_of s') ps = map (value_of s1) ps"
    using lt by (auto simp: ps_def s' value_of_def nth_append)
  with v w y s' lt show ?thesis
    unfolding ps_def by auto
qed

lemma unary_op_node:
  assumes "unary_op k s self = (Inr y, s')" and "self < length s"
  shows "\<exists>v. y = length s \<and> s' = s @ [Value_init v [self] (Some k) None None]
     \<and> op_forward k (map (value_of s') [self]) = Inr v"
proof -
  from assms(1) obtain v where v: "op_forward k [value_of s self] = Inr v"
    and y: "y = length s" and s': "s' = s @ [Value_init v [self] (Some k) None None]"
    by (auto simp: unary_op_def split: sum.splits)
  have "value_of s' self = value_of s self"
    using assms(2) by (simp add: s' value_of_def nth_append)
  with v y s' show ?thesis
    by auto
qed

text \<open>
  Construction keeps the store in creation order: a new node refers only to nodes
  that exist already.
\<close>

lemma wf_store_snoc:
  assumes "wf_store s" and "\<forall>p \<in> set ps. p < length s"
  shows "wf_store (s @ [Value_init v ps k b l])"
  unfolding wf_store_def
proof (intro allI impI ballI)
  fix a p
  assume a: "a < length (s @ [Value_init v ps k b l])"
    and p: "p \<in> set (prev ((s @ [Value_init v ps k b l]) ! a))"
  show "p < a"
  proof (cases "a < length s")
    case True
    with assms(1) p show ?thesis by (simp add: wf_store_def nth_append)
  next
    case False
    with a have "a = length s" by simp
    with assms(2) p show ?thesis by (simp add: Value_init_def)
  qed
qed

lemma wf_store_unary_op:
  assumes "wf_store s" and "self < length s"
  shows "wf_store (snd (unary_op k s self))"
  using assms by (auto simp: unary_op_def split: sum.splits intro: wf_store_snoc)

lemma wf_store_binary_op:
  assumes wf: "wf_store s" and self: "self < length s"
    and other: "\<And>a. other = Node a \<Longrightarrow> a < length s"
  shows "wf_store (snd (binary_op k r s self other))"
proof (cases "wrap s other")
  case (Inl e)
  then show ?thesis using wf by (simp add: binary_op_def)
next
  case (Inr w)
  obtain other' s1 where w: "w = (other', s1)" by (cases w)
  from wrap_cases[OF Inr[unfolded w]] wf self other
  have wf1: "wf_store s1" and lt: "other' < length s1" "self < length s1"
    by (auto intro: wf_store_snoc)
  show ?thesis
    using Inr w wf1 lt
    by (auto simp: binary_op_def Let_def split: sum.splits intro!: wf_store_snoc)
qed

text \<open>
  C7: a node returned by any of the binary operator methods, by \<open>__neg__\<close> or by a
  unary function method lists exactly its operand nodes in \<open>prev\<close> (two for a binary
  method, \<open>self\<close> and the node or wrapped literal \<open>other\<close>, in the order in which their
  values were passed to \<open>forward\<close>; one for a unary method), its \<open>value\<close> is the
  operation's \<open>forward\<close> on the operands' values, and its \<open>grad\<close> is 0.
\<close>

theorem constructed_node_invariant:
  "self < length s \<Longrightarrow> (\<forall>a. other = Node a \<longrightarrow> a < length s) \<Longrightarrow>
   ((k, r, m) \<in> set binary_methods \<longrightarrow> m s self other = (Inr y, s') \<longrightarrow>
      (\<exists>other'. (other = Node other'
                   \<or> (\<exists>x. other = Number x \<and> other' = length s
                          \<and> s' ! other' = Value_init (Float x) [] None None None))
          \<and> prev (s' ! y) = (if r then [other', self] else [self, other']))
      \<and> length (prev (s' ! y)) = arity k
      \<and> op (s' ! y) = Some k
      \<and> op_forward k (map (value_of s') (prev (s' ! y))) = Inr (value (s' ! y))
      \<and> grad (s' ! y) = Float 0)
   \<and> ((k, u) \<in> set unary_methods \<longrightarrow> u s self = (Inr y, s') \<longrightarrow>
      prev (s' ! y) = [self]
      \<and> length (prev (s' ! y)) = arity k
      \<and> op (s' ! y) = Some k
      \<and> op_forward k (map (value_of s') (prev (s' ! y))) = Inr (value (s' ! y))
      \<and> grad (s' ! y) = Float 0)"
proof (intro conjI impI)
  assume a: "self < length s" "\<forall>a. other = Node a \<longrightarrow> a < length s"
    and m: "(k, r, m) \<in> set binary_methods" "m s self other = (Inr y, s')"
  from binary_methods_are[OF m(1)] m(2)
  have b: "binary_op k r s self other = (Inr y, s')" and ar: "arity k = 2" by auto
  from binary_op_node[OF b a(1)] a(2)
  obtain other' s1 v where w: "wrap s other = Inr (other', s1)" and y: "y = length s1"
    and s': "s' = s1 @ [Value_init v (if r then [other', self] else [self, other']) (Some k) None None]"
    and v: "op_forward k (map (value_of s') (if r then [other', self] else [self, other'])) = Inr v"
    by blast
  have n: "s' ! y = Value_init v (if r then [other', self] else [self, other']) (Some k) None None"
    by (subst s') (simp add: y)
  have "other = Node other' \<or> (\<exists>x. other = Number x \<and> other' = length s
          \<and> s' ! other' = Value_init (Float x) [] None None None)"
    using wrap_cases[OF w] by (subst s') (auto simp: nth_append)
  then show "\<exists>other'. (other = Node other'
                   \<or> (\<exists>x. other = Number x \<and> other' = length s
                          \<and> s' ! other' = Value_init (Float x) [] None None None))
          \<and> prev (s' ! y) = (if r then [other', self] else [self, other'])"
    by (auto simp: n Value_init_def)
  show "length (prev (s' ! y)) = arity k" using ar by (simp add: n Value_init_def)
  show "op (s' ! y) = Some k" by (simp add: n Value_init_def)
  show "op_forward k (map (value_of s') (prev (s' ! y))) = Inr (value (s' ! y))"
    using v by (simp add: n Value_init_def)
  show "grad (s' ! y) = Float 0" by (simp add: n Value_init_def)
next
  assume a: "self < length s"
    and m: "(k, u) \<in> set unary_methods" "u s self = (Inr y, s')"
  from unary_methods_are[OF m(1)] m(2)
  have b: "unary_op k s self = (Inr y, s')" and ar: "arity k = 1" by auto
  from unary_op_node[OF b a]
  obtain v where y: "y = length s" and s': "s' = s @ [Value_init v [self] (Some k) None None]"
    and v: "op_forward k (map (value_of s') [self]) = Inr v"
    by blast
  have n: "s' ! y = Value_init v [self] (Some k) None None"
    by (subst s') (simp add: y)
  show "prev (s' ! y) = [self]" by (simp add: n Value_init_def)
  show "length (prev (s' ! y)) = arity k" using ar by (simp add: n Value_init_def)
  show "op (s' ! y) = Some k" by (simp add: n Value_init_def)
  show "op_forward k (map (value_of s') (prev (s' ! y))) = Inr (value (s' ! y))"
    using v by (simp add: n Value_init_def)
  show "grad (s' ! y) = Float 0" by (simp add: n Value_init_def)
qed

theorem constructed_node_invariant_witness:
  "Value_rsub two_leaves 0 (Number 5)
     = (Inr 3, two_leaves @ [Value_init (Float 5) [] None None None,
                             Value_init (Float 3) [2, 0] (Some Sub) None None])
   \<and> Value_cos two_leaves 1
     = (Inr 2, two_leaves @ [Value_init (Float (cos 3)) [1] (Some Cos) None None])
   \<and> prev ((two_leaves @ [Value_init (Float 5) [] None None None,
                           Value_init (Float 3) [2, 0] (Some Sub) None None]) ! 3) = [2, 0]
   \<and> op_forward Sub [Float 5, Float 2] = Inr (Float 3)
   \<and> prev ((two_leaves @ [Value_init (Float (cos 3)) [1] (Some Cos) None None]) ! 2) = [1]"
  using constructed_node_invariant [where self = 0 and s = two_leaves and other = "Number 5"
      and k = Sub and r = True and m = Value_rsub and y = 3 and u = Value_neg
      and s' = "two_leaves @ [Value_init (Float 5) [] None None None,
                              Value_init (Float 3) [2, 0] (Some Sub) None None]"]
    constructed_node_invariant [where self = 1 and s = two_leaves and other = "Number 5"
      and k = Cos and r = True and m = Value_rsub and y = 2 and u = Value_cos
      and s' = "two_leaves @ [Value_init (Float (cos 3)) [1] (Some Cos) None None]"]
  by (simp add: two_leaves_def Value_rsub_def Value_cos_def binary_op_def unary_op_def wrap_def
      value_of_def Value_init_def)


text \<open>
  C6: \<open>log\<close> on a node whose value is 0 or negative raises the math domain error
  in the forward evaluation, and the store is left as it was: no node is constructed.
\<close>

theorem log_of_nonpositive_raises:
  "value_of s x = Float v \<Longrightarrow> v \<le> 0 \<Longrightarrow> Value_log s x = (Inl ValueError, s)"
  by (simp add: Value_log_def unary_op_def)

theorem log_of_nonpositive_raises_witness:
  "value_of negative_leaf 0 = Float (- 2) \<and> (- 2 :: real) \<le> 0
   \<and> Value_log negative_leaf 0 = (Inl ValueError, negative_leaf)"
proof -
  have h: "value_of negative_leaf 0 = Float (- 2)"
    by (simp add: negative_leaf_def value_of_def Value_init_def)
  have n: "(- 2 :: real) \<le> 0" by simp
  show ?thesis using h n log_of_nonpositive_raises [OF h n] by simp
qed

text \<open>
  C9: when the operand \<open>other\<close> is neither a node nor something \<open>float\<close> converts,
  each of the binary operator methods fails with the conversion error, returns no node
  and leaves the store, hence every node built before, unchanged.
\<close>

theorem coercion_failure:
  "Value_add s self NonNumeric = (Inl ConversionError, s)
   \<and> Value_radd s self NonNumeric = (Inl ConversionError, s)
   \<and> Value_mul s self NonNumeric = (Inl ConversionError, s)
   \<and> Value_rmul s self NonNumeric = (Inl ConversionError, s)
   \<and> Value_sub s self NonNumeric = (Inl ConversionError, s)
   \<and> Value_rsub s self NonNumeric = (Inl ConversionError, s)
   \<and> Value_truediv s self NonNumeric = (Inl ConversionError, s)
   \<and> Value_rtruediv s self NonNumeric = (Inl ConversionError, s)
   \<and> Value_pow s self NonNumeric = (Inl ConversionError, s)
   \<and> Value_rpow s self NonNumeric = (Inl ConversionError, s)"
  by (simp add: method_defs binary_op_def wrap_def)

text \<open>
  C10: dividing by a node whose value is 0 raises ZeroDivisionError in the forward
  evaluation and returns no node, whether the dividend is a node (\<open>__truediv__\<close>,
  or \<open>__rtruediv__\<close> on the divisor) or a literal (\<open>__rtruediv__\<close>). No node of the
  store changes; in the literal case the leaf that wrapped the literal was already
  allocated when the division failed, and nothing refers to it.
\<close>

lemma py_truediv_by_zero: "py_truediv x (Float 0) = Inl ZeroDivisionError"
  by (cases x) simp_all

theorem division_by_zero_raises:
  "b < length s \<Longrightarrow> value_of s b = Float 0 \<Longrightarrow>
     Value_truediv s a (Node b) = (Inl ZeroDivisionError, s)
     \<and> Value_rtruediv s b (Node a) = (Inl ZeroDivisionError, s)
     \<and> Value_rtruediv s b (Number x)
         = (Inl ZeroDivisionError, s @ [Value_init (Float x) [] None None None])"
  by (simp add: Value_truediv_def Value_rtruediv_def binary_op_def wrap_def py_truediv_by_zero
      value_of_def nth_append)

theorem division_by_zero_raises_witness:
  "1 < length zero_divisor
   \<and> value_of zero_divisor 1 = Float 0
   \<and> Value_truediv zero_divisor 0 (Node 1) = (Inl ZeroDivisionError, zero_divisor)
   \<and> Value_rtruediv zero_divisor 1 (Number 7)
       = (Inl ZeroDivisionError, zero_divisor @ [Value_init (Float 7) [] None None None])"
proof -
  have h: "1 < length zero_divisor" "value_of zero_divisor 1 = Float 0"
    by (simp_all add: zero_divisor_def value_of_def Value_init_def)
  show ?thesis
    using h division_by_zero_raises [OF h, of 0 7] by simp
qed

section \<open>The topological order\<close>

lemma reach_through_operand:
  "u \<in> reach s p \<Longrightarrow> p \<in> set (prev_of s v) \<Longrightarrow> u \<in> reach s v"
  by (induction rule: reach.induct) (auto intro: reach.intros)

lemma wf_store_prev_of: "wf_store s \<Longrightarrow> p \<in> set (prev_of s v) \<Longrightarrow> p < v"
  by (auto simp: wf_store_def prev_of_def split: if_splits)

lemma topo_inv_snoc:
  assumes "topo_inv s (vis, t)" "v \<notin> set t" "set (prev_of s v) \<subseteq> set t"
  shows "topo_inv s (insert v vis, t @ [v])"
proof -
  have "set (prev_of s ((t @ [v]) ! i)) \<subseteq> set (take i (t @ [v]))" if "i < length (t @ [v])" for i
  proof (cases "i < length t")
    case True
    with assms(1) show ?thesis by (auto simp: topo_inv_def nth_append)
  next
    case False
    with that have "i = length t" by simp
    with assms(3) show ?thesis by simp
  qed
  with assms show ?thesis
    unfolding topo_inv_def by auto
qed

lemma build_topo_correct:
  "wf_store s \<longrightarrow> v < length s \<longrightarrow> topo_inv s st \<longrightarrow> (\<forall>u \<in> fst st. u \<le> v \<longrightarrow> u \<in> set (snd st)) \<longrightarrow>
     (\<exists>new. build_topo s v st = (fst st \<union> set new, snd st @ new)
        \<and> topo_inv s (fst st \<union> set new, snd st @ new)
        \<and> (\<forall>u \<in> set new. u \<le> v \<and> u \<in> reach s v)
        \<and> v \<in> set (snd st @ new))"
  "\<forall>b. wf_store s \<longrightarrow> b \<le> length s \<longrightarrow> (\<forall>p \<in> set ps. p < b) \<longrightarrow> topo_inv s st
     \<longrightarrow> (\<forall>u \<in> fst st. u < b \<longrightarrow> u \<in> set (snd st)) \<longrightarrow>
     (\<exists>new. visit_parents s ps st = (fst st \<union> set new, snd st @ new)
        \<and> topo_inv s (fst st \<union> set new, snd st @ new)
        \<and> (\<forall>u \<in> set new. u < b \<and> (\<exists>p \<in> set ps. u \<in> reach s p))
        \<and> set ps \<subseteq> set (snd st @ new))"
proof (induction s v st and s ps st rule: build_topo_visit_parents.induct)
  case (1 s v visited topo)
  show ?case
  proof (intro impI)
    assume wf: "wf_store s" and v: "v < length s" and inv: "topo_inv s (visited, topo)"
      and pre: "\<forall>u \<in> fst (visited, topo). u \<le> v \<longrightarrow> u \<in> set (snd (visited, topo))"
    show "\<exists>new. build_topo s v (visited, topo) = (fst (visited, topo) \<union> set new, snd (visited, topo) @ new)
        \<and> topo_inv s (fst (visited, topo) \<union> set new, snd (visited, topo) @ new)
        \<and> (\<forall>u \<in> set new. u \<le> v \<and> u \<in> reach s v)
        \<and> v \<in> set (snd (visited, topo) @ new)"
    proof (cases "v \<in> visited")
      case True
      with pre have "v \<in> set topo" by simp
      with True inv show ?thesis
        by (intro exI[of _ "[]"]) (simp add: build_topo.simps)
    next
      case False
      have inv1: "topo_inv s (insert v visited, topo)"
        using inv by (auto simp: topo_inv_def)
      have pre1: "\<forall>u \<in> fst (insert v visited, topo). u < v \<longrightarrow> u \<in> set (snd (insert v visited, topo))"
        using pre by auto
      have ops: "\<forall>p \<in> set (prev_of s v). p < v"
        using wf wf_store_prev_of by blast
      have vle: "v \<le> length s" using v by simp
      have "\<exists>new. visit_parents s (prev_of s v) (insert v visited, topo)
            = (fst (insert v visited, topo) \<union> set new, snd (insert v visited, topo) @ new)
          \<and> topo_inv s (fst (insert v visited, topo) \<union> set new, snd (insert v visited, topo) @ new)
          \<and> (\<forall>u \<in> set new. u < v \<and> (\<exists>p \<in> set (prev_of s v). u \<in> reach s p))
          \<and> set (prev_of s v) \<subseteq> set (snd (insert v visited, topo) @ new)"
        by (rule 1[OF False, rule_format, OF wf vle _ inv1]) (use ops pre1 in simp_all)
      then obtain new1 where
        vp: "visit_parents s (prev_of s v) (insert v visited, topo) = (insert v visited \<union> set new1, topo @ new1)"
        and inv2: "topo_inv s (insert v visited \<union> set new1, topo @ new1)"
        and new1: "\<forall>u \<in> set new1. u < v \<and> (\<exists>p \<in> set (prev_of s v). u \<in> reach s p)"
        and sub: "set (prev_of s v) \<subseteq> set (topo @ new1)"
        unfolding fst_conv snd_conv by blast
      have notin: "v \<notin> set (topo @ new1)"
        using False inv new1 by (auto simp: topo_inv_def)
      have inv3: "topo_inv s (insert v (insert v visited \<union> set new1), (topo @ new1) @ [v])"
        by (rule topo_inv_snoc[OF inv2 notin sub])
      have eq: "build_topo s v (visited, topo) = (visited \<union> set (new1 @ [v]), topo @ (new1 @ [v]))"
        using False vp by (auto simp: build_topo.simps)
      have "\<forall>u \<in> set (new1 @ [v]). u \<le> v \<and> u \<in> reach s v"
        using new1 by (auto intro: reach.root reach_through_operand less_imp_le)
      moreover have "topo_inv s (visited \<union> set (new1 @ [v]), topo @ (new1 @ [v]))"
        using inv3 by (simp add: Un_commute insert_commute)
      ultimately show ?thesis
        using eq by (intro exI[of _ "new1 @ [v]"]) simp
    qed
  qed
next
  case (2 s st)
  show ?case by (intro allI impI exI[of _ "[]"]) simp
next
  case (3 s parent ps st)
  show ?case
  proof (intro allI impI)
    fix b
    assume wf: "wf_store s" and b: "b \<le> length s" and lt: "\<forall>p \<in> set (parent # ps). p < b"
      and inv: "topo_inv s st" and pre: "\<forall>u \<in> fst st. u < b \<longrightarrow> u \<in> set (snd st)"
    have par_lt: "parent < length s" using lt b by auto
    have pre0: "\<forall>u \<in> fst st. u \<le> parent \<longrightarrow> u \<in> set (snd st)"
      using pre lt by auto
    have "\<exists>new. build_topo s parent st = (fst st \<union> set new, snd st @ new)
        \<and> topo_inv s (fst st \<union> set new, snd st @ new)
        \<and> (\<forall>u \<in> set new. u \<le> parent \<and> u \<in> reach s parent)
        \<and> parent \<in> set (snd st @ new)"
      by (rule 3(1)[rule_format, OF wf par_lt inv]) (use pre0 in simp)
    then obtain new1 where
      bt: "build_topo s parent st = (fst st \<union> set new1, snd st @ new1)"
      and inv1: "topo_inv s (fst st \<union> set new1, snd st @ new1)"
      and new1: "\<forall>u \<in> set new1. u \<le> parent \<and> u \<in> reach s parent"
      and par: "parent \<in> set (snd st @ new1)"
      by blast
    have pre1: "\<forall>u \<in> fst (build_topo s parent st). u < b \<longrightarrow> u \<in> set (snd (build_topo s parent st))"
      using pre by (auto simp: bt)
    have lt1: "\<forall>p \<in> set ps. p < b" using lt by simp
    have inv1': "topo_inv s (build_topo s parent st)" using inv1 by (simp add: bt)
    have "\<exists>new. visit_parents s ps (build_topo s parent st)
            = (fst (build_topo s parent st) \<union> set new, snd (build_topo s parent st) @ new)
        \<and> topo_inv s (fst (build_topo s parent st) \<union> set new, snd (build_topo s parent st) @ new)
        \<and> (\<forall>u \<in> set new. u < b \<and> (\<exists>p \<in> set ps. u \<in> reach s p))
        \<and> set ps \<subseteq> set (snd (build_topo s parent st) @ new)"
      by (rule 3(2)[rule_format, OF wf b _ inv1']) (use lt1 pre1 in simp_all)
    then obtain new2 where
      vp: "visit_parents s ps (build_topo s parent st)
            = (fst (build_topo s parent st) \<union> set new2, snd (build_topo s parent st) @ new2)"
      and inv2: "topo_inv s (fst (build_topo s parent st) \<union> set new2, snd (build_topo s parent st) @ new2)"
      and new2: "\<forall>u \<in> set new2. u < b \<and> (\<exists>p \<in> set ps. u \<in> reach s p)"
      and sub: "set ps \<subseteq> set (snd (build_topo s parent st) @ new2)"
      by blast
    have "visit_parents s (parent # ps) st = (fst st \<union> set (new1 @ new2), snd st @ (new1 @ new2))"
      using vp by (simp add: bt Un_assoc)
    moreover have "topo_inv s (fst st \<union> set (new1 @ new2), snd st @ (new1 @ new2))"
      using inv2 by (simp add: bt Un_assoc)
    moreover have "\<forall>u \<in> set (new1 @ new2). u < b \<and> (\<exists>p \<in> set (parent # ps). u \<in> reach s p)"
      using new1 new2 lt by fastforce
    moreover have "set (parent # ps) \<subseteq> set (snd st @ (new1 @ new2))"
      using par sub by (auto simp: bt)
    ultimately show "\<exists>new. visit_parents s (parent # ps) st = (fst st \<union> set new, snd st @ new)
        \<and> topo_inv s (fst st \<union> set new, snd st @ new)
        \<and> (\<forall>u \<in> set new. u < b \<and> (\<exists>p \<in> set (parent # ps). u \<in> reach s p))
        \<and> set (parent # ps) \<subseteq> set (snd st @ new)"
      by blast
  qed
qed

lemma topo_order_facts:
  assumes wf: "wf_store s" and r: "r < length s"
  shows "distinct (topo_order s r)"
    and "set (topo_order s r) \<subseteq> reach s r"
    and "r \<in> set (topo_order s r)"
    and "\<And>i. i < length (topo_order s r) \<Longrightarrow>
           set (prev_of s (topo_order s r ! i)) \<subseteq> set (take i (topo_order s r))"
    and "\<And>u. u \<in> set (topo_order s r) \<Longrightarrow> u < length s"
proof -
  define st0 :: "addr set \<times> addr list" where "st0 = ({}, [])"
  have inv0: "topo_inv s st0" by (simp add: topo_inv_def st0_def)
  have "\<exists>new. build_topo s r st0 = (fst st0 \<union> set new, snd st0 @ new)
        \<and> topo_inv s (fst st0 \<union> set new, snd st0 @ new)
        \<and> (\<forall>u \<in> set new. u \<le> r \<and> u \<in> reach s r)
        \<and> r \<in> set (snd st0 @ new)"
    by (rule build_topo_correct(1)[rule_format, OF wf r inv0]) (simp add: st0_def)
  then obtain new where bt: "build_topo s r ({}, []) = (set new, new)"
    and inv: "topo_inv s (set new, new)"
    and new: "\<forall>u \<in> set new. u \<le> r \<and> u \<in> reach s r"
    and rin: "r \<in> set new"
    by (auto simp: st0_def)
  have t: "topo_order s r = new" by (simp add: topo_order_def bt)
  show "distinct (topo_order s r)" using inv by (simp add: t topo_inv_def)
  show "set (topo_order s r) \<subseteq> reach s r" using new by (auto simp: t)
  show "r \<in> set (topo_order s r)" using rin by (simp add: t)
  show "\<And>i. i < length (topo_order s r) \<Longrightarrow>
           set (prev_of s (topo_order s r ! i)) \<subseteq> set (take i (topo_order s r))"
    using inv by (simp add: t topo_inv_def)
  show "\<And>u. u \<in> set (topo_order s r) \<Longrightarrow> u < length s"
    using new r by (auto simp: t)
qed

lemma topo_order_closed:
  assumes "wf_store s" and "r < length s"
    and "v \<in> set (topo_order s r)" and "p \<in> set (prev_of s v)"
  shows "p \<in> set (topo_order s r)"
proof -
  from assms(3) obtain i where i: "i < length (topo_order s r)" "topo_order s r ! i = v"
    by (auto simp: in_set_conv_nth)
  from topo_order_facts(4)[OF assms(1,2) i(1)] i(2) assms(4)
  have "p \<in> set (take i (topo_order s r))" by auto
  then show ?thesis by (rule in_set_takeD)
qed

lemma reach_in_topo_order:
  assumes "wf_store s" and "r < length s" and "u \<in> reach s r"
  shows "u \<in> set (topo_order s r)"
  using assms(3)
proof (induction rule: reach.induct)
  case root
  show ?case by (rule topo_order_facts(3)[OF assms(1,2)])
next
  case (operand v p)
  then show ?case using topo_order_closed[OF assms(1,2)] by blast
qed

text \<open>
  C2: in a store in creation order, the order that \<open>backward\<close> computes from a root
  \<open>r\<close> lists exactly the nodes reachable from \<open>r\<close> along operand edges, each of them
  once, and every operand of a listed node stands at an earlier position than the node.
\<close>

theorem topo_order_correct:
  "wf_store s \<Longrightarrow> r < length s \<Longrightarrow>
     set (topo_order s r) = reach s r
     \<and> distinct (topo_order s r)
     \<and> (\<forall>i < length (topo_order s r). \<forall>p \<in> set (prev_of s (topo_order s r ! i)).
           \<exists>j < i. topo_order s r ! j = p)"
proof (intro conjI allI impI ballI)
  assume wf: "wf_store s" and r: "r < length s"
  show "set (topo_order s r) = reach s r"
    using topo_order_facts(2)[OF wf r] reach_in_topo_order[OF wf r] by blast
  show "distinct (topo_order s r)" by (rule topo_order_facts(1)[OF wf r])
  fix i p
  assume i: "i < length (topo_order s r)" and p: "p \<in> set (prev_of s (topo_order s r ! i))"
  from topo_order_facts(4)[OF wf r i] p have "p \<in> set (take i (topo_order s r))" by blast
  then obtain j where "j < length (take i (topo_order s r))" "take i (topo_order s r) ! j = p"
    by (auto simp: in_set_conv_nth)
  then show "\<exists>j < i. topo_order s r ! j = p" by auto
qed

lemma wf_store_diamond: "wf_store diamond"
  by (auto simp: wf_store_def diamond_def Value_init_def less_Suc_eq numeral_3_eq_3)

lemma topo_order_diamond: "topo_order diamond 2 = [0, 1, 2]"
  by (simp add: topo_order_def build_topo.simps prev_of_def diamond_def Value_init_def)

theorem topo_order_correct_witness:
  "wf_store diamond \<and> 2 < length diamond
   \<and> topo_order diamond 2 = [0, 1, 2]
   \<and> reach diamond 2 = {0, 1, 2}
   \<and> distinct (topo_order diamond 2)"
proof -
  have len: "2 < length diamond" by (simp add: diamond_def)
  from topo_order_correct [OF wf_store_diamond len]
  have "set (topo_order diamond 2) = reach diamond 2" and "distinct (topo_order diamond 2)"
    by blast+
  then show ?thesis
    using wf_store_diamond len topo_order_diamond by auto
qed

section \<open>What the backward pass writes\<close>

lemma skeleton_update:
  assumes "value n = value (s ! a)" "op n = op (s ! a)" "prev n = prev (s ! a)"
    "backward_hook n = backward_hook (s ! a)" "label n = label (s ! a)"
  shows "skeleton (s[a := n]) = skeleton s"
proof (cases "a < length s")
  case True
  have "skeleton (s[a := n]) = (skeleton s)[a := skeleton s ! a]"
    using True assms by (simp add: skeleton_def map_update)
  then show ?thesis by simp
next
  case False
  then have "s[a := n] = s" by (intro list_update_beyond) simp
  then show ?thesis by simp
qed

lemma skeleton_set_grad [simp]: "skeleton (set_grad s a g) = skeleton s"
  by (simp add: set_grad_def skeleton_update)

lemma skeleton_add_grad [simp]: "skeleton (add_grad s a g) = skeleton s"
  by (simp add: add_grad_def skeleton_update)

lemma skeleton_reset_grads [simp]: "skeleton (reset_grads s t) = skeleton s"
  by (induction t arbitrary: s) simp_all

lemma skeleton_accumulate [simp]: "skeleton (accumulate s zs) = skeleton s"
  by (induction s zs rule: accumulate.induct) simp_all

lemma skeleton_propagate: "propagate s v = Inr s' \<Longrightarrow> skeleton s' = skeleton s"
  by (auto simp: propagate_def split: option.splits if_splits sum.splits)

lemma skeleton_length:
  assumes "skeleton s' = skeleton s"
  shows "length s' = length s"
proof -
  have "length (skeleton s') = length (skeleton s)" using assms by simp
  then show ?thesis by (simp add: skeleton_def)
qed

lemma skeleton_fields:
  "map value s = map fst (skeleton s)"
  "map op s = map (fst \<circ> snd) (skeleton s)"
  "map prev s = map (fst \<circ> snd \<circ> snd) (skeleton s)"
  "map backward_hook s = map (fst \<circ> snd \<circ> snd \<circ> snd) (skeleton s)"
  "map label s = map (snd \<circ> snd \<circ> snd \<circ> snd) (skeleton s)"
  by (simp_all add: skeleton_def comp_def)

lemma skeleton_nth:
  assumes "skeleton s' = skeleton s" and "a < length s"
  shows "value (s' ! a) = value (s ! a)" "op (s' ! a) = op (s ! a)"
    "prev (s' ! a) = prev (s ! a)" "backward_hook (s' ! a) = backward_hook (s ! a)"
    "label (s' ! a) = label (s ! a)"
proof -
  have len: "a < length s'" using skeleton_length[OF assms(1)] assms(2) by simp
  have "skeleton s' ! a = skeleton s ! a" using assms(1) by simp
  then have "(value (s' ! a), op (s' ! a), prev (s' ! a), backward_hook (s' ! a), label (s' ! a))
      = (value (s ! a), op (s ! a), prev (s ! a), backward_hook (s ! a), label (s ! a))"
    using len assms(2) by (simp add: skeleton_def)
  then show "value (s' ! a) = value (s ! a)" "op (s' ! a) = op (s ! a)"
    "prev (s' ! a) = prev (s ! a)" "backward_hook (s' ! a) = backward_hook (s ! a)"
    "label (s' ! a) = label (s ! a)"
    by simp_all
qed

lemma skeleton_prev_of:
  assumes "skeleton s' = skeleton s"
  shows "prev_of s' = prev_of s"
proof
  fix a
  show "prev_of s' a = prev_of s a"
    using skeleton_length[OF assms] skeleton_nth(3)[OF assms, of a]
    by (simp add: prev_of_def)
qed

lemma untouched_refl [simp]: "untouched A s s"
  by (simp add: untouched_def)

lemma untouched_trans:
  "untouched A s s' \<Longrightarrow> untouched B s' s'' \<Longrightarrow> A \<subseteq> C \<Longrightarrow> B \<subseteq> C \<Longrightarrow> untouched C s s''"
proof -
  assume 1: "untouched A s s'" and 2: "untouched B s' s''" and ac: "A \<subseteq> C" and bc: "B \<subseteq> C"
  have len: "length s' = length s" "length s'' = length s"
    using 1 2 by (simp_all add: untouched_def)
  have "s'' ! a = s ! a" if "a < length s" "a \<notin> C" for a
  proof -
    have "a \<notin> A" "a \<notin> B" using that ac bc by auto
    then have "s' ! a = s ! a" "s'' ! a = s' ! a"
      using 1 2 that(1) len by (simp_all add: untouched_def)
    then show ?thesis by simp
  qed
  with len show ?thesis by (simp add: untouched_def)
qed

lemma untouched_set_grad: "untouched {a} s (set_grad s a g)"
  by (simp add: untouched_def set_grad_def)

lemma untouched_add_grad: "untouched {a} s (add_grad s a g)"
  by (simp add: untouched_def add_grad_def)

lemma untouched_reset_grads: "untouched (set t) s (reset_grads s t)"
proof (induction t arbitrary: s)
  case Nil
  show ?case by simp
next
  case (Cons a t)
  have "untouched (set (a # t)) s (reset_grads (set_grad s a (Float 0)) t)"
    by (rule untouched_trans[OF untouched_set_grad[of a s "Float 0"] Cons[of "set_grad s a (Float 0)"]]) auto
  then show ?case by simp
qed

lemma untouched_accumulate: "untouched (fst ` set zs) s (accumulate s zs)"
proof (induction s zs rule: accumulate.induct)
  case (1 s)
  show ?case by simp
next
  case (2 s parent g rest)
  have "untouched (fst ` set ((parent, g) # rest)) s (accumulate (add_grad s parent g) rest)"
    by (rule untouched_trans[OF untouched_add_grad[of parent s g] 2]) auto
  then show ?case by simp
qed

lemma untouched_propagate:
  assumes "propagate s v = Inr s'"
  shows "untouched (set (prev (s ! v))) s s'"
proof -
  have acc: "untouched (set (prev (s ! v))) s (accumulate s (zip (prev (s ! v)) gs))" for gs
    by (rule untouched_trans[OF untouched_refl[of "{}" s] untouched_accumulate])
       (auto dest: set_zip_leftD)
  show ?thesis
  proof (cases "op (s ! v)")
    case None
    with assms show ?thesis by (simp add: propagate_def)
  next
    case (Some k)
    show ?thesis
    proof (cases "prev (s ! v) = []")
      case True
      with assms Some show ?thesis by (simp add: propagate_def)
    next
      case False
      with assms Some obtain gs where "s' = accumulate s (zip (prev (s ! v)) gs)"
        by (auto simp: propagate_def split: sum.splits)
      then show ?thesis using acc by simp
    qed
  qed
qed

text \<open>With the default hook, an iteration of the reverse loop is the block alone.\<close>

lemma reverse_step_default:
  assumes v: "v < length s" and h: "backward_hook (s ! v) = None"
  shows "reverse_step call s v =
     (case propagate s v of Inl e \<Rightarrow> (s, Some e) | Inr s' \<Rightarrow> (s', None))"
proof (cases "propagate s v")
  case (Inl e)
  then show ?thesis by (simp add: reverse_step_def)
next
  case (Inr s')
  have "backward_hook (s' ! v) = None"
    using skeleton_nth(4)[OF skeleton_propagate[OF Inr] v] h by simp
  with Inr show ?thesis by (simp add: reverse_step_def run_hook_def)
qed

lemma reverse_step_frame:
  assumes v: "v < length s" and h: "backward_hook (s ! v) = None"
  shows "skeleton (fst (reverse_step call s v)) = skeleton s"
    and "untouched (set (prev (s ! v))) s (fst (reverse_step call s v))"
proof -
  note eq = reverse_step_default[OF v h, of call]
  show "skeleton (fst (reverse_step call s v)) = skeleton s"
    by (cases "propagate s v") (simp_all add: eq skeleton_propagate)
  show "untouched (set (prev (s ! v))) s (fst (reverse_step call s v))"
    by (cases "propagate s v") (simp_all add: eq untouched_propagate)
qed

lemma reverse_pass_frame:
  assumes "skeleton s = skeleton s0"
    and "\<forall>v \<in> set vs. v < length s0 \<and> backward_hook (s0 ! v) = None \<and> set (prev_of s0 v) \<subseteq> A"
  shows "skeleton (fst (reverse_pass call s vs)) = skeleton s0
       \<and> untouched A s (fst (reverse_pass call s vs))"
  using assms
proof (induction vs arbitrary: s)
  case Nil
  then show ?case by simp
next
  case (Cons v vs)
  have v0: "v < length s0" "backward_hook (s0 ! v) = None" "set (prev_of s0 v) \<subseteq> A"
    using Cons.prems(2) by auto
  have v: "v < length s" using skeleton_length[OF Cons.prems(1)] v0(1) by simp
  have h: "backward_hook (s ! v) = None"
    using skeleton_nth(4)[OF Cons.prems(1) v0(1)] v0(2) by simp
  have p: "prev (s ! v) = prev_of s0 v"
    using skeleton_nth(3)[OF Cons.prems(1) v0(1)] v0(1) by (simp add: prev_of_def)
  obtain s' eo where step: "reverse_step call s v = (s', eo)" by (cases "reverse_step call s v")
  have sk: "skeleton s' = skeleton s0"
    using reverse_step_frame(1)[OF v h, of call] step Cons.prems(1) by simp
  have ut: "untouched (set (prev_of s0 v)) s s'"
    using reverse_step_frame(2)[OF v h, of call] step p by simp
  have utA: "untouched A s s'"
    by (rule untouched_trans[OF ut untouched_refl[of A s'] v0(3) subset_refl])
  show ?case
  proof (cases eo)
    case (Some e)
    with step sk utA show ?thesis by simp
  next
    case None
    have rest: "\<forall>v \<in> set vs. v < length s0 \<and> backward_hook (s0 ! v) = None \<and> set (prev_of s0 v) \<subseteq> A"
      using Cons.prems(2) by simp
    from Cons.IH[OF sk rest]
    have "skeleton (fst (reverse_pass call s' vs)) = skeleton s0"
      and 2: "untouched A s' (fst (reverse_pass call s' vs))" by simp_all
    moreover have "untouched A s (fst (reverse_pass call s' vs))"
      by (rule untouched_trans[OF utA 2 subset_refl subset_refl])
    ultimately show ?thesis using step None by simp
  qed
qed

lemma topo_order_is_reach:
  assumes "wf_store s" and "r < length s"
  shows "set (topo_order s r) = reach s r"
  using topo_order_facts(2)[OF assms] reach_in_topo_order[OF assms] by blast

lemma backward_frame:
  assumes wf: "wf_store s" and r: "r < length s" and dh: "default_hooks s r"
  shows "skeleton (fst (Value_backward call s r)) = skeleton s"
    and "untouched (reach s r) s (fst (Value_backward call s r))"
proof -
  define topo where "topo = topo_order s r"
  define s1 where "s1 = reset_grads s topo"
  define s2 where "s2 = set_grad s1 r (Float 1)"
  have A: "set topo = reach s r" unfolding topo_def by (rule topo_order_is_reach[OF wf r])
  have 1: "untouched (set topo) s s1" unfolding s1_def by (rule untouched_reset_grads)
  have 2: "untouched {r} s1 s2" unfolding s2_def by (rule untouched_set_grad)
  have rin: "r \<in> set topo" unfolding topo_def by (rule topo_order_facts(3)[OF wf r])
  have 12: "untouched (set topo) s s2"
    by (rule untouched_trans[OF 1 2]) (use rin in auto)
  have sk: "skeleton s2 = skeleton s" by (simp add: s2_def s1_def)
  have ops: "\<forall>v \<in> set (rev topo). v < length s \<and> backward_hook (s ! v) = None
      \<and> set (prev_of s v) \<subseteq> set topo"
    using topo_order_facts(5)[OF wf r] topo_order_closed[OF wf r] dh A
    unfolding topo_def default_hooks_def by auto
  note fr = reverse_pass_frame[OF sk ops, of call]
  have bw: "Value_backward call s r = reverse_pass call s2 (rev topo)"
    by (simp add: Value_backward_def Let_def topo_def s1_def s2_def)
  show "skeleton (fst (Value_backward call s r)) = skeleton s"
    using fr by (simp add: bw)
  have "untouched (set topo) s (fst (reverse_pass call s2 (rev topo)))"
    by (rule untouched_trans[OF 12 conjunct2[OF fr] subset_refl subset_refl])
  then show "untouched (reach s r) s (fst (Value_backward call s r))"
    by (simp add: bw A)
qed

text \<open>
  C8, amended: when every node reachable from the root holds the default \<open>_backward\<close>
  (as every node built by the operator methods does), \<open>backward\<close> on a store in
  creation order leaves the \<open>value\<close>, \<open>op\<close>, \<open>prev\<close> and \<open>label\<close> of every node as
  they were, whether it returns or raises, and leaves every node that is not reachable
  from the root wholly unchanged. So only \<open>grad\<close> attributes of reachable nodes are
  written. This holds whatever the callables of unreachable nodes would do.
\<close>

theorem backward_changes_only_grads:
  "wf_store s \<Longrightarrow> r < length s \<Longrightarrow> default_hooks s r \<Longrightarrow>
     map value (fst (Value_backward call s r)) = map value s
     \<and> map op (fst (Value_backward call s r)) = map op s
     \<and> map prev (fst (Value_backward call s r)) = map prev s
     \<and> map label (fst (Value_backward call s r)) = map label s
     \<and> map backward_hook (fst (Value_backward call s r)) = map backward_hook s
     \<and> (\<forall>a < length s. a \<notin> reach s r \<longrightarrow> fst (Value_backward call s r) ! a = s ! a)"
proof -
  assume wf: "wf_store s" and r: "r < length s" and dh: "default_hooks s r"
  note sk = backward_frame(1)[OF wf r dh, of call]
  have "map value (fst (Value_backward call s r)) = map value s"
    "map op (fst (Value_backward call s r)) = map op s"
    "map prev (fst (Value_backward call s r)) = map prev s"
    "map label (fst (Value_backward call s r)) = map label s"
    "map backward_hook (fst (Value_backward call s r)) = map backward_hook s"
    by (simp_all only: skeleton_fields sk)
  moreover have "\<forall>a < length s. a \<notin> reach s r \<longrightarrow> fst (Value_backward call s r) ! a = s ! a"
    using backward_frame(2)[OF wf r dh, of call] by (simp add: untouched_def)
  ultimately show ?thesis by blast
qed

lemmas backward_eval =
  Value_backward_def topo_order_def build_topo.simps prev_of_def set_grad_def add_grad_def
  propagate_def reverse_step_def run_hook_def value_of_def Value_init_def and_then_def Let_def

lemma topo_order_diamond_1: "topo_order diamond 1 = [0, 1]"
  by (simp add: topo_order_def build_topo.simps prev_of_def diamond_def Value_init_def)

lemma reach_diamond_1: "a \<in> reach diamond 1 \<Longrightarrow> a = 0 \<or> a = 1"
proof -
  assume "a \<in> reach diamond 1"
  then have "a \<in> set (topo_order diamond 1)"
    by (rule reach_in_topo_order[OF wf_store_diamond, rotated]) (simp add: diamond_def)
  then show ?thesis using topo_order_diamond_1 by simp
qed

lemma diamond_2_not_reached: "2 \<notin> reach diamond 1"
  using reach_diamond_1[of 2] by auto

lemma default_hooks_diamond_1: "default_hooks diamond 1"
  unfolding default_hooks_def
proof
  fix a
  assume "a \<in> reach diamond 1"
  then have "a = 0 \<or> a = 1" by (rule reach_diamond_1)
  then show "backward_hook (diamond ! a) = None"
    by (auto simp: diamond_def Value_init_def)
qed

theorem backward_changes_only_grads_witness:
  "wf_store diamond \<and> 1 < length diamond \<and> default_hooks diamond 1
   \<and> 2 < length diamond \<and> 2 \<notin> reach diamond 1
   \<and> fst (Value_backward run_example diamond 1) ! 2 = diamond ! 2
   \<and> map value (fst (Value_backward run_example diamond 1)) = [Float 3, Float 9, Float 12]"
proof -
  have len: "1 < length diamond" "2 < length diamond" by (simp_all add: diamond_def)
  have v: "map value diamond = [Float 3, Float 9, Float 12]"
    by (simp add: diamond_def Value_init_def)
  show ?thesis
    using backward_changes_only_grads [OF wf_store_diamond len(1) default_hooks_diamond_1, of run_example]
      wf_store_diamond len diamond_2_not_reached default_hooks_diamond_1 v
    by simp
qed

text \<open>
  The claim as first stated, for every graph, fails when a reachable node was built
  with a custom callable: \<open>backward\<close> calls it at the end of the node's iteration, and
  for \<open>x = Value(3.0, backward=lambda: setattr(x, 'value', 5.0))\<close> and \<open>y = x * x\<close> the
  value of \<open>x\<close> is 5 after \<open>y.backward()\<close>.
\<close>

theorem backward_custom_hook_changes_value:
  "value (hooked_square Set_value ! 0) = Float 3
   \<and> value (fst (Value_backward run_example (hooked_square Set_value) 1) ! 0) = Float 5"
  by (simp add: backward_eval hooked_square_def)

section \<open>Repeating the backward pass\<close>

lemma build_topo_cong:
  "prev_of s' = prev_of s \<longrightarrow> build_topo s' v st = build_topo s v st"
  "prev_of s' = prev_of s \<longrightarrow> visit_parents s' ps st = visit_parents s ps st"
proof (induction s v st and s ps st rule: build_topo_visit_parents.induct)
  case (1 s v visited topo)
  show ?case
  proof
    assume eq: "prev_of s' = prev_of s"
    show "build_topo s' v (visited, topo) = build_topo s v (visited, topo)"
    proof (cases "v \<in> visited")
      case True
      then show ?thesis by (simp add: build_topo.simps)
    next
      case False
      with 1 eq have "visit_parents s' (prev_of s v) (insert v visited, topo)
          = visit_parents s (prev_of s v) (insert v visited, topo)" by simp
      with False eq show ?thesis by (simp add: build_topo.simps)
    qed
  qed
next
  case (2 s st)
  show ?case by simp
next
  case (3 s parent ps st)
  then show ?case by simp
qed

lemma topo_order_cong: "prev_of s' = prev_of s \<Longrightarrow> topo_order s' r = topo_order s r"
  using build_topo_cong(1)[of s' s r "({}, [])"] by (simp add: topo_order_def)

lemma node_eqI:
  fixes m n :: "'c node"
  assumes "value m = value n" "grad m = grad n" "op m = op n" "prev m = prev n"
    "backward_hook m = backward_hook n" "label m = label n"
  shows "m = n"
  using assms by (cases m, cases n) simp

lemma set_grad_nth:
  "a < length s \<Longrightarrow> set_grad s n g ! a = (if a = n then (s ! a)\<lparr>grad := g\<rparr> else s ! a)"
  by (simp add: set_grad_def nth_list_update)

lemma length_set_grad [simp]: "length (set_grad s n g) = length s"
  by (simp add: set_grad_def)

lemma length_reset_grads [simp]: "length (reset_grads s t) = length s"
  by (induction t arbitrary: s) simp_all

lemma reset_grads_nth:
  "a < length s \<Longrightarrow>
     reset_grads s t ! a = (if a \<in> set t then (s ! a)\<lparr>grad := Float 0\<rparr> else s ! a)"
  by (induction t arbitrary: s) (auto simp: set_grad_nth)

lemma reset_grads_eq:
  assumes sk: "skeleton s' = skeleton s" and ut: "untouched (set t) s s'"
  shows "reset_grads s' t = reset_grads s t"
proof (rule nth_equalityI)
  show "length (reset_grads s' t) = length (reset_grads s t)"
    using skeleton_length[OF sk] by simp
next
  fix a
  assume "a < length (reset_grads s' t)"
  then have a: "a < length s" "a < length s'" using skeleton_length[OF sk] by simp_all
  show "reset_grads s' t ! a = reset_grads s t ! a"
  proof (cases "a \<in> set t")
    case True
    have "(s' ! a)\<lparr>grad := Float 0\<rparr> = (s ! a)\<lparr>grad := Float 0\<rparr>"
      by (rule node_eqI) (simp_all add: skeleton_nth[OF sk a(1)])
    with True a show ?thesis by (simp add: reset_grads_nth)
  next
    case False
    with ut a have "s' ! a = s ! a" by (simp add: untouched_def)
    with False a show ?thesis by (simp add: reset_grads_nth)
  qed
qed

text \<open>
  C3, amended: when every node reachable from the root holds the default \<open>_backward\<close>,
  a second \<open>backward\<close> from the same root of a store in creation order, run on the
  store the first one left, ends in exactly the same store, in every \<open>grad\<close> in
  particular, and with the same outcome (returning, or raising the same exception).
\<close>

theorem backward_idempotent:
  "wf_store s \<Longrightarrow> r < length s \<Longrightarrow> default_hooks s r \<Longrightarrow>
     Value_backward call (fst (Value_backward call s r)) r = Value_backward call s r"
proof -
  assume wf: "wf_store s" and r: "r < length s" and dh: "default_hooks s r"
  define s1 where "s1 = fst (Value_backward call s r)"
  have sk: "skeleton s1 = skeleton s" unfolding s1_def by (rule backward_frame(1)[OF wf r dh])
  have t: "topo_order s1 r = topo_order s r"
    by (rule topo_order_cong[OF skeleton_prev_of[OF sk]])
  have "untouched (set (topo_order s r)) s s1"
    using backward_frame(2)[OF wf r dh, of call] by (simp add: s1_def topo_order_is_reach[OF wf r])
  then have "reset_grads s1 (topo_order s r) = reset_grads s (topo_order s r)"
    by (rule reset_grads_eq[OF sk])
  then have "Value_backward call s1 r = Value_backward call s r"
    by (simp add: Value_backward_def t)
  then show ?thesis by (simp add: s1_def)
qed

lemma default_hooks_diamond_2: "default_hooks diamond 2"
  unfolding default_hooks_def
proof
  fix a
  assume "a \<in> reach diamond 2"
  then have "a \<in> set (topo_order diamond 2)"
    by (rule reach_in_topo_order[OF wf_store_diamond, rotated]) (simp add: diamond_def)
  then have "a = 0 \<or> a = 1 \<or> a = 2" using topo_order_diamond by simp
  then show "backward_hook (diamond ! a) = None"
    by (auto simp: diamond_def Value_init_def)
qed

lemma backward_diamond:
  "map grad (fst (Value_backward run_example diamond 2)) = [Float 7, Float 1, Float 1]
   \<and> snd (Value_backward run_example diamond 2) = None"
  by (simp add: backward_eval diamond_def)

theorem backward_idempotent_witness:
  "wf_store diamond \<and> 2 < length diamond \<and> default_hooks diamond 2
   \<and> Value_backward run_example (fst (Value_backward run_example diamond 2)) 2
       = Value_backward run_example diamond 2
   \<and> map grad (fst (Value_backward run_example diamond 2)) = [Float 7, Float 1, Float 1]"
proof -
  have len: "2 < length diamond" by (simp add: diamond_def)
  show ?thesis
    using backward_idempotent [OF wf_store_diamond len default_hooks_diamond_2, of run_example]
      wf_store_diamond len default_hooks_diamond_2 backward_diamond
    by simp
qed

text \<open>
  The claim as first stated, for every graph, fails when a reachable node carries a
  callable with state: for \<open>x = Value(3.0, backward=lambda: setattr(x, 'value',
  x.value + 1.0))\<close> and \<open>y = x * x\<close>, the first \<open>y.backward()\<close> leaves \<open>x.grad\<close> at 6
  and the second at 8.
\<close>

theorem backward_stateful_hook_not_idempotent:
  "map grad (fst (Value_backward run_example (hooked_square Bump_value) 1)) = [Float 6, Float 1]
   \<and> map grad (fst (Value_backward run_example
                       (fst (Value_backward run_example (hooked_square Bump_value) 1)) 1))
       = [Float 8, Float 1]"
  by (simp add: backward_eval hooked_square_def)

section \<open>Gradient accumulation\<close>

lemma twice_number:
  "py_add (py_add (Float 0) (py_mul (Float 1) v)) (py_mul (Float 1) v) = py_mul (Float 2) v"
  by (cases v) simp_all

lemma topo_order_square:
  assumes x: "x < length s" and leaf: "prev (s ! x) = []"
  shows "topo_order (s @ [Value_init v [x, x] (Some Mul) None None]) (length s) = [x, length s]"
proof -
  define s' where "s' = s @ [Value_init v [x, x] (Some Mul) None None]"
  have py: "prev_of s' (length s) = [x, x]"
    by (simp add: s'_def prev_of_def Value_init_def)
  have px: "prev_of s' x = []"
    using x leaf by (simp add: s'_def prev_of_def nth_append)
  have ne: "x \<noteq> length s" using x by simp
  have "build_topo s' (length s) ({}, []) = ({x, length s}, [x, length s])"
    using ne by (simp add: build_topo.simps py px insert_commute)
  then show ?thesis by (simp add: topo_order_def s'_def)
qed

text \<open>
  C1, amended: for every leaf \<open>x\<close> that holds the default \<open>_backward\<close>, \<open>x * x\<close>
  builds a node \<open>y\<close>, and \<open>y.backward()\<close> returns and leaves \<open>x.grad\<close> equal to
  \<open>2 * x.value\<close>: both contributions of the \<open>Mul\<close> node to its shared operand are
  added.
\<close>

theorem square_grad_is_twice_value:
  "x < length s \<Longrightarrow> op (s ! x) = None \<Longrightarrow> prev (s ! x) = [] \<Longrightarrow>
   backward_hook (s ! x) = None \<Longrightarrow>
     (\<exists>y s'. Value_mul s x (Node x) = (Inr y, s')
        \<and> snd (Value_backward call s' y) = None
        \<and> grad (fst (Value_backward call s' y) ! x) = py_mul (Float 2) (value (s ! x)))"
proof -
  assume x: "x < length s" and leaf: "op (s ! x) = None" "prev (s ! x) = []"
    and hook: "backward_hook (s ! x) = None"
  define v where "v = value (s ! x)"
  define ynode :: "'a node" where
    "ynode = \<lparr>value = py_mul v v, grad = Float 1, op = Some Mul, prev = [x, x],
              backward_hook = None, label = None\<rparr>"
  define s' where "s' = s @ [Value_init (py_mul v v) [x, x] (Some Mul) None None]"
  define final where "final = s[x := (s ! x)\<lparr>grad := py_mul (Float 2) v\<rparr>] @ [ynode]"
  have mul: "Value_mul s x (Node x) = (Inr (length s), s')"
    by (simp add: Value_mul_def binary_op_def wrap_def value_of_def v_def s'_def)
  have topo: "topo_order s' (length s) = [x, length s]"
    unfolding s'_def by (rule topo_order_square[OF x leaf(2)])
  have ne: "x \<noteq> length s" using x by simp
  define s2 where "s2 = set_grad (reset_grads s' [x, length s]) (length s) (Float 1)"
  have s2: "s2 = s[x := (s ! x)\<lparr>grad := Float 0\<rparr>] @ [ynode]"
    using x by (simp add: s2_def s'_def ynode_def set_grad_def Value_init_def nth_append
        list_update_append)
  have py: "propagate s2 (length s) = Inr final"
    using x by (simp add: s2 final_def ynode_def propagate_def value_of_def nth_append
        add_grad_def list_update_append v_def twice_number)
  have sy: "reverse_step call s2 (length s) = (final, None)"
    by (simp add: reverse_step_def py run_hook_def) (simp add: final_def ynode_def nth_append)
  have px: "propagate final x = Inr final"
    using x leaf by (simp add: final_def propagate_def nth_append)
  have sx: "reverse_step call final x = (final, None)"
    using x hook by (simp add: reverse_step_def px run_hook_def) (simp add: final_def nth_append)
  have "Value_backward call s' (length s) = (final, None)"
    using sy sx by (simp add: Value_backward_def topo s2_def[symmetric] del: reset_grads.simps)
  then have "snd (Value_backward call s' (length s)) = None"
    and "grad (fst (Value_backward call s' (length s)) ! x) = py_mul (Float 2) (value (s ! x))"
    using x by (simp_all add: final_def nth_append v_def)
  with mul show ?thesis by blast
qed

theorem square_grad_is_twice_value_witness:
  "(0::nat) < length two_leaves \<and> op (two_leaves ! 0) = None \<and> prev (two_leaves ! 0) = []
   \<and> backward_hook (two_leaves ! 0) = None
   \<and> Value_mul two_leaves 0 (Node 0)
       = (Inr 2, two_leaves @ [Value_init (Float 4) [0, 0] (Some Mul) None None])
   \<and> grad (fst (Value_backward run_example
                  (two_leaves @ [Value_init (Float 4) [0, 0] (Some Mul) None None]) 2) ! 0)
       = Float 4"
proof -
  have h: "(0::nat) < length two_leaves" "op (two_leaves ! 0) = None" "prev (two_leaves ! 0) = []"
    "backward_hook (two_leaves ! 0) = None"
    by (simp_all add: two_leaves_def Value_init_def)
  have m: "Value_mul two_leaves 0 (Node 0)
      = (Inr 2, two_leaves @ [Value_init (Float 4) [0, 0] (Some Mul) None None])"
    by (simp add: Value_mul_def binary_op_def wrap_def value_of_def two_leaves_def Value_init_def)
  have v: "value (two_leaves ! 0) = Float 2" by (simp add: two_leaves_def Value_init_def)
  from square_grad_is_twice_value [OF h, of run_example]
  obtain y s' where "Value_mul two_leaves 0 (Node 0) = (Inr y, s')"
    and "grad (fst (Value_backward run_example s' y) ! 0) = py_mul (Float 2) (value (two_leaves ! 0))"
    by blast
  with m v have "grad (fst (Value_backward run_example
                  (two_leaves @ [Value_init (Float 4) [0, 0] (Some Mul) None None]) 2) ! 0)
       = Float 4"
    by simp
  with h m show ?thesis by simp
qed

text \<open>
  The claim as first stated, for every leaf, fails for a leaf built with a custom
  callable, which runs after the accumulation: for
  \<open>x = Value(3.0, backward=lambda: setattr(x, 'grad', 0.0))\<close> and \<open>y = x * x\<close>,
  \<open>y.backward()\<close> leaves \<open>x.grad\<close> at 0, not at 6.
\<close>

theorem square_grad_custom_hook:
  "Value_mul (hooked_leaf Zero_grad) 0 (Node 0) = (Inr 1, hooked_square Zero_grad)
   \<and> py_mul (Float 2) (value (hooked_leaf Zero_grad ! 0)) = Float 6
   \<and> grad (fst (Value_backward run_example (hooked_square Zero_grad) 1) ! 0) = Float 0"
  by (simp add: backward_eval hooked_square_def hooked_leaf_def Value_mul_def binary_op_def wrap_def)

section \<open>The backward rule of Pow on a non-positive base\<close>











section \<open>Forward failures of Log, Tan, Cot and Coth\<close>





end
